theory Spec2Isabelle
  imports Complex_Main "HOL-Library.Word" "HOL-Library.Log_Nat"
begin

unbundle bit_operations_syntax

section \<open>The downmixer of the SDR library (downmixer.c)\<close>

text \<open>
  The C types of the source: \<open>short\<close> is a 16-bit word and \<open>int\<close> a 32-bit word, both
  read in two's complement by \<open>sint\<close>; \<open>uint32_t\<close> is a 32-bit word read by \<open>unat\<close>.
  A client number only ever indexes the two per-client arrays, so it is an \<open>int\<close> that
  is checked against the array bounds. The calls of \<open>printf\<close> write to the terminal
  and touch no variable of the program; they are left out.
\<close>

type_synonym short = "16 word"
type_synonym cint = "32 word"
type_synonym uint32_t = "32 word"

text \<open>
  What C leaves undefined is a value of the model: an index outside one of the
  per-client arrays, a shift count outside \<open>0..31\<close>, and the conversion to an integer
  of a quotient that is no number (division by a zero sample rate).
\<close>

datatype fault = Bad_Index | Bad_Shift | Not_A_Number

subsection \<open>Global variables\<close>

definition SINETABSIZE :: nat where
  "SINETABSIZE = 65536"

text \<open>
  \<open>sinetable\<close> is the array \<open>short sinetable[SINETABSIZE]\<close>, read only at indices
  below \<open>SINETABSIZE\<close>; \<open>fcw\<close> and \<open>accu\<close> are the arrays of \<open>MAX_CLIENTS\<close> entries;
  \<open>trx_frequency\<close> and \<open>ser_command\<close> are the two variables of the CAT interface that
  \<open>downmixer_setFrequency\<close> writes.
\<close>

record mixer =
  sinetable :: "nat \<Rightarrow> short"
  samplerate :: cint
  fcw :: "uint32_t list"
  accu :: "uint32_t list"
  sht :: cint
  trx_frequency :: cint
  ser_command :: cint

text \<open>
  The variables as the program starts: static storage is zero, \<open>sht\<close> has its
  initialiser 10. \<open>MAX_CLIENTS\<close> is a macro of qo100websdr.h and a parameter here.
\<close>

definition program_start :: "nat \<Rightarrow> mixer" where
  "program_start MAX_CLIENTS =
     \<lparr>sinetable = (\<lambda>i. 0), samplerate = 0,
      fcw = replicate MAX_CLIENTS 0, accu = replicate MAX_CLIENTS 0,
      sht = 10, trx_frequency = 0, ser_command = 0\<rparr>"

definition valid_index :: "int \<Rightarrow> 'a list \<Rightarrow> bool" where
  "valid_index n xs \<longleftrightarrow> 0 \<le> n \<and> nat n < length xs"

subsection \<open>Double precision\<close>

text \<open>
  A finite double is the real number it stands for. \<open>round_even\<close> is the nearest integer,
  a tie going to the even one; \<open>round_double x\<close> is the nearest number with a
  significand of 53 bits, which is what an IEEE 754 division returns for the exact
  quotient \<open>x\<close>. The exponent is read off the integer part, which is exact for
  \<open>x = 0\<close> and for \<open>1/2 \<le> \<bar>x\<bar> < 2 ^ 1024\<close>; the quotients of the tuner are of that kind.
\<close>

definition round_even :: "real \<Rightarrow> int" where
  "round_even x =
     (let f = \<lfloor>x\<rfloor>; r = x - of_int f in
      if r < 1 / 2 then f
      else if 1 / 2 < r then f + 1
      else if even f then f else f + 1)"

definition round_double :: "real \<Rightarrow> real" where
  "round_double x =
     (let e = bitlen \<lfloor>\<bar>x\<bar>\<rfloor> - 1; u = 2 powi (e - 52) in
      of_int (round_even (x / u)) * u)"

definition double_div :: "real \<Rightarrow> real \<Rightarrow> real" where
  "double_div x y = round_double (x / y)"

text \<open>
  A conversion from double to an integer type drops the fraction (rounds towards zero).
  Where the integer part does not fit the target type C leaves the result open; the
  model keeps its low bits, as the conversion through a wider integer does.
\<close>

definition trunc_double :: "real \<Rightarrow> int" where
  "trunc_double x = (if x < 0 then \<lceil>x\<rceil> else \<lfloor>x\<rfloor>)"

definition short_of_double :: "real \<Rightarrow> short" where
  "short_of_double x = word_of_int (trunc_double x)"

definition uint32_of_double :: "real \<Rightarrow> uint32_t" where
  "uint32_of_double x = word_of_int (trunc_double x)"

definition p232 :: real where
  "p232 = 2 ^ 32"

subsection \<open>downmixer_setFrequency\<close>

text \<open>
  \<open>TUNED_FREQUENCY\<close> is a macro of the project's headers and a parameter here; it and
  the two CAT variables, declared in cat.h, are taken to be of type \<open>int\<close>. The two
  assignments to the CAT variables come before the array access, as in the source.
  The quotient is computed as the source does: the product \<open>(double)fr * p232\<close> is
  exact, the division rounds.
\<close>

definition downmixer_setFrequency :: "cint \<Rightarrow> cint \<Rightarrow> int \<Rightarrow> mixer \<Rightarrow> fault + mixer" where
  "downmixer_setFrequency TUNED_FREQUENCY fr client_no s =
     (let s1 = s\<lparr>trx_frequency := fr + TUNED_FREQUENCY, ser_command := 2\<rparr> in
      if \<not> valid_index client_no (fcw s1) then Inl Bad_Index
      else if samplerate s1 = 0 then Inl Not_A_Number
      else Inr (s1\<lparr>fcw := (fcw s1)[nat client_no :=
             uint32_of_double
               (double_div (real_of_int (sint fr) * p232)
                           (real_of_int (sint (samplerate s1))))]\<rparr>))"

subsection \<open>downmixer_init\<close>

text \<open>
  The loop that fills the table. The source computes \<open>v\<close> and \<open>sin v\<close> in double
  precision with the sine of the C library, whose rounding is not fixed by any
  standard; the model computes both in the real numbers.
\<close>

function fill_sinetable :: "nat \<Rightarrow> real \<Rightarrow> (nat \<Rightarrow> short) \<Rightarrow> (nat \<Rightarrow> short)" where
  "fill_sinetable i v tab =
     (if i < SINETABSIZE
      then fill_sinetable (i + 1) (v + (2 * pi) / real SINETABSIZE)
             (tab(i := short_of_double (sin v * 32768)))
      else tab)"
  by pat_completeness auto
termination
  by (relation "measure (\<lambda>(i, v, tab). SINETABSIZE - i)") auto

text \<open>The loop that sets the default frequency of 10 kHz for every client.\<close>

function default_frequencies :: "cint \<Rightarrow> nat \<Rightarrow> nat \<Rightarrow> mixer \<Rightarrow> fault + mixer" where
  "default_frequencies TUNED_FREQUENCY MAX_CLIENTS i s =
     (if i < MAX_CLIENTS
      then (case downmixer_setFrequency TUNED_FREQUENCY 10000 (int i) s of
              Inl e \<Rightarrow> Inl e
            | Inr s1 \<Rightarrow>
                if \<not> valid_index (int i) (accu s1) then Inl Bad_Index
                else default_frequencies TUNED_FREQUENCY MAX_CLIENTS (i + 1)
                       (s1\<lparr>accu := (accu s1)[i := 0]\<rparr>))
      else Inr s)"
  by pat_completeness auto
termination
  by (relation "measure (\<lambda>(t, m, i, s). m - i)") auto

text \<open>\<open>NB_SAMPLE_RATE\<close> is a macro of the project's headers and a parameter here.\<close>

definition downmixer_init :: "cint \<Rightarrow> cint \<Rightarrow> nat \<Rightarrow> mixer \<Rightarrow> fault + mixer" where
  "downmixer_init NB_SAMPLE_RATE TUNED_FREQUENCY MAX_CLIENTS s =
     (let s1 = s\<lparr>samplerate := NB_SAMPLE_RATE\<rparr>;
          s2 = s1\<lparr>sinetable := fill_sinetable 0 0 (sinetable s1)\<rparr>
      in default_frequencies TUNED_FREQUENCY MAX_CLIENTS 0 s2)"

subsection \<open>increment_NCO\<close>

definition increment_NCO :: "int \<Rightarrow> mixer \<Rightarrow> fault + (short \<times> mixer)" where
  "increment_NCO client_no s =
     (if \<not> valid_index client_no (accu s) \<or> \<not> valid_index client_no (fcw s)
      then Inl Bad_Index
      else
        let c = nat client_no;
            s1 = s\<lparr>accu := (accu s)[c := accu s ! c + fcw s ! c]\<rparr>;
            s2 = s1\<lparr>accu := (accu s1)[c := accu s1 ! c AND 0xffffffff]\<rparr>
        in Inr (sinetable s2 (unat (drop_bit 16 (accu s2 ! c))), s2))"

subsection \<open>downmixer_process\<close>

text \<open>
  The two samples are passed by value and returned; the source reads both before it
  writes either. \<open>mix\<close> is the product \<open>(int)sample * lo\<close> in 32 bits. A right shift
  of a negative \<open>int\<close> keeps the sign, and the conversion to \<open>short\<close> keeps the low
  16 bits.
\<close>

definition mix :: "short \<Rightarrow> cint \<Rightarrow> cint" where
  "mix sample lo = scast sample * lo"

definition downmixer_process ::
  "short \<Rightarrow> short \<Rightarrow> int \<Rightarrow> mixer \<Rightarrow> fault + ((short \<times> short) \<times> mixer)" where
  "downmixer_process isample qsample client s =
     (case increment_NCO client s of
        Inl e \<Rightarrow> Inl e
      | Inr (nco, s1) \<Rightarrow>
          let lo = (scast nco :: cint);
              ix = mix isample lo;
              qx = mix qsample lo
          in if sint (sht s1) < 0 \<or> 32 \<le> sint (sht s1) then Inl Bad_Shift
             else
               let n = unat (sht s1);
                   pi' = (ucast (signed_drop_bit n ix) :: short);
                   pq' = (ucast (signed_drop_bit n qx) :: short)
               in Inr ((pi', pq'),
                       if 32767 < sint (signed_drop_bit n ix) \<and> sint (sht s1) < 15
                       then s1\<lparr>sht := sht s1 + 1\<rparr>
                       else s1))"

text \<open>A sequence of calls, each with its two samples and its client, stopping at a fault.\<close>

fun process_all :: "(short \<times> short \<times> int) list \<Rightarrow> mixer \<Rightarrow> fault + mixer" where
  "process_all [] s = Inr s"
| "process_all ((i, q, c) # calls) s =
     (case downmixer_process i q c s of
        Inl e \<Rightarrow> Inl e
      | Inr (out, s1) \<Rightarrow> process_all calls s1)"

text \<open>The same call repeated \<open>n\<close> times on the same pair of samples, with every output.\<close>

fun process_repeat ::
  "nat \<Rightarrow> short \<Rightarrow> short \<Rightarrow> int \<Rightarrow> mixer \<Rightarrow> fault + ((short \<times> short) list \<times> mixer)" where
  "process_repeat 0 i q c s = Inr ([], s)"
| "process_repeat (Suc n) i q c s =
     (case downmixer_process i q c s of
        Inl e \<Rightarrow> Inl e
      | Inr (out, s1) \<Rightarrow>
          (case process_repeat n i q c s1 of
             Inl e \<Rightarrow> Inl e
           | Inr (outs, s2) \<Rightarrow> Inr (out # outs, s2)))"

subsection \<open>Running the program\<close>

text \<open>One call after another: a fault ends the run.\<close>

definition then_do :: "fault + 'a \<Rightarrow> ('a \<Rightarrow> fault + 'b) \<Rightarrow> fault + 'b" where
  "then_do r f = (case r of Inl e \<Rightarrow> Inl e | Inr x \<Rightarrow> f x)"

text \<open>
  The program from its start: \<open>downmixer_init\<close>, then one call of
  \<open>downmixer_setFrequency\<close> for a client.
\<close>

definition start_and_tune :: "cint \<Rightarrow> cint \<Rightarrow> nat \<Rightarrow> cint \<Rightarrow> int \<Rightarrow> fault + mixer" where
  "start_and_tune NB_SAMPLE_RATE TUNED_FREQUENCY MAX_CLIENTS fr client_no =
     then_do (downmixer_init NB_SAMPLE_RATE TUNED_FREQUENCY MAX_CLIENTS
                (program_start MAX_CLIENTS))
             (downmixer_setFrequency TUNED_FREQUENCY fr client_no)"

subsection \<open>The formulas of the specification\<close>

text \<open>
  The control word as the specification words it: \<open>offsetHz * 2^32 / sampleRate\<close>
  rounded to the nearest integer.
\<close>

definition spec_controlWord :: "int \<Rightarrow> int \<Rightarrow> int" where
  "spec_controlWord offsetHz sampleRate =
     round (real_of_int offsetHz * 2 ^ 32 / real_of_int sampleRate)"

text \<open>
  The table entry as the specification words it: \<open>sin(2\<pi>i/65536) * 32767\<close> rounded to
  the nearest integer.
\<close>

definition spec_amplitude :: "nat \<Rightarrow> int" where
  "spec_amplitude i = round (sin (2 * pi * real i / 65536) * 32767)"

section \<open>Properties\<close>

declare fill_sinetable.simps [simp del]
declare default_frequencies.simps [simp del]

subsection \<open>Auxiliary facts\<close>

lemma sint_short_bounds: "- 32768 \<le> sint (x :: short)" "sint (x :: short) \<le> 32767"
  using sint_ge [of x] sint_lt [of x] by simp_all

lemma abs_product_short: "\<bar>sint (x :: short) * sint (y :: short)\<bar> \<le> 32768 * 32768"
proof -
  have "\<bar>sint x\<bar> \<le> 32768" using sint_short_bounds [of x] by linarith
  moreover have "\<bar>sint y\<bar> \<le> 32768" using sint_short_bounds [of y] by linarith
  ultimately show ?thesis
    unfolding abs_mult by (intro mult_mono) simp_all
qed

lemma sint_mix: "sint (mix sample (scast (lo :: short))) = sint sample * sint lo"
proof -
  have c: "- (2 ^ 31) \<le> sint sample * sint lo" "sint sample * sint lo < 2 ^ 31"
    using abs_product_short [of sample lo] by simp_all
  have "sint (mix sample (scast lo)) = signed_take_bit 31 (sint sample * sint lo)"
    by (simp add: mix_def sint_word_ariths sint_up_scast is_up)
  also have "\<dots> = sint sample * sint lo"
    using c by (simp add: signed_take_bit_int_eq_self)
  finally show ?thesis .
qed

lemma unat_drop_bit_16: "unat (drop_bit 16 (a :: 32 word)) = unat a div 65536"
  by (simp add: drop_bit_eq_div unat_div)

lemma ucast_down_eq: "(ucast (w :: 32 word) :: 16 word) = word_of_int (sint w)"
  by (rule bit_word_eqI) (auto simp add: bit_simps bit_sint_iff)

lemma sint_sht_Suc:
  assumes "0 \<le> sint (x :: cint)" and "sint x < 15"
  shows "sint (x + 1) = sint x + 1"
  using assms by (simp add: sint_word_ariths signed_take_bit_int_eq_self)

lemma increment_NCO_eq:
  assumes "valid_index c (accu s)" and "valid_index c (fcw s)"
  shows "increment_NCO c s =
           Inr (sinetable s (unat (drop_bit 16 (accu s ! nat c + fcw s ! nat c))),
                s\<lparr>accu := (accu s)[nat c := accu s ! nat c + fcw s ! nat c]\<rparr>)"
proof -
  have "(0xffffffff :: 32 word) = - 1" by simp
  then have m: "(w :: 32 word) AND 0xffffffff = w" for w
    by (simp only: word_bw_comms and.right_neutral and.left_neutral)
  show ?thesis using assms
    by (simp add: increment_NCO_def valid_index_def Let_def m)
qed

lemma example_NCO:
  "increment_NCO 0 ((program_start 1)\<lparr>sinetable := (\<lambda>i. 32767)\<rparr>) =
     Inr (32767, (program_start 1)\<lparr>sinetable := (\<lambda>i. 32767)\<rparr>)"
  by (simp add: increment_NCO_eq valid_index_def program_start_def)

lemma increment_NCO_sht:
  assumes "increment_NCO c s = Inr (lo, s1)"
  shows "sht s1 = sht s"
  using assms by (auto simp add: increment_NCO_def Let_def split: if_splits)

lemma downmixer_process_eq:
  assumes nco: "increment_NCO c s = Inr (lo, s1)"
    and sh: "0 \<le> sint (sht s)" "sint (sht s) < 32"
  shows "downmixer_process i q c s =
           Inr ((word_of_int (sint i * sint lo div 2 ^ nat (sint (sht s))),
                 word_of_int (sint q * sint lo div 2 ^ nat (sint (sht s)))),
                if 32767 < sint i * sint lo div 2 ^ nat (sint (sht s)) \<and> sint (sht s) < 15
                then s1\<lparr>sht := sht s + 1\<rparr> else s1)"
proof -
  have n: "unat (sht s) = nat (sint (sht s))"
  proof -
    have "uint (sht s) = sint (sht s)"
      using sh by (simp add: uint_sint take_bit_int_eq_self)
    then show ?thesis by (simp add: unat_eq_nat_uint)
  qed
  have d: "sint (signed_drop_bit k (mix x (scast lo))) = sint x * sint lo div 2 ^ k" for x k
    by (simp add: sint_signed_drop_bit_eq sint_mix drop_bit_eq_div)
  show ?thesis using sh
    by (simp add: downmixer_process_def nco increment_NCO_sht [OF nco] n Let_def
        ucast_down_eq d)
qed

lemma process_step:
  assumes v: "valid_index c (accu s)" "valid_index c (fcw s)"
    and sh: "0 \<le> sint (sht s)" "sint (sht s) < 32"
  shows "\<exists>out a n. downmixer_process i q c s =
            Inr (out, s\<lparr>accu := (accu s)[nat c := a], sht := n\<rparr>)
          \<and> (n = sht s \<or> n = sht s + 1 \<and> sint (sht s) < 15)"
proof -
  let ?a = "accu s ! nat c + fcw s ! nat c"
  note p = downmixer_process_eq [OF increment_NCO_eq [OF v] sh, of i q]
  show ?thesis
  proof (cases "32767 < sint i * sint (sinetable s (unat (drop_bit 16 ?a)))
                   div 2 ^ nat (sint (sht s)) \<and> sint (sht s) < 15")
    case True
    then show ?thesis
      by (intro exI [of _ ?a] exI [of _ "sht s + 1"] exI) (simp add: p)
  next
    case False
    then have "downmixer_process i q c s = Inr (fst (projr (downmixer_process i q c s)),
                 s\<lparr>accu := (accu s)[nat c := ?a], sht := sht s\<rparr>)"
      by (simp add: p)
    then show ?thesis by blast
  qed
qed

lemma process_shift:
  assumes v: "valid_index c (accu s)" "valid_index c (fcw s)"
    and sh: "0 \<le> sint (sht s)" "sint (sht s) \<le> 15"
  shows "\<exists>out s'. downmixer_process i q c s = Inr (out, s')
          \<and> length (accu s') = length (accu s) \<and> length (fcw s') = length (fcw s)
          \<and> sint (sht s) \<le> sint (sht s') \<and> sint (sht s') \<le> 15
          \<and> (sint (sht s) = 15 \<longrightarrow> sht s' = sht s)"
proof -
  have sh32: "sint (sht s) < 32" using sh by simp
  from process_step [OF v sh(1) sh32, of i q] obtain out a n where
    p: "downmixer_process i q c s = Inr (out, s\<lparr>accu := (accu s)[nat c := a], sht := n\<rparr>)"
    and n: "n = sht s \<or> n = sht s + 1 \<and> sint (sht s) < 15"
    by blast
  from n have "sint (sht s) \<le> sint n \<and> sint n \<le> 15 \<and> (sint (sht s) = 15 \<longrightarrow> n = sht s)"
    using sh sint_sht_Suc [of "sht s"] by auto
  then show ?thesis by (simp add: p)
qed

subsection \<open>The oscillator\<close>

text \<open>
  Claim C5. For a valid client \<open>c\<close>, one call of \<open>increment_NCO\<close> replaces the
  accumulator of \<open>c\<close> by the sum of its old value and the control word of \<open>c\<close>, taken
  modulo \<open>2 ^ 32\<close>, and returns the table entry selected by the upper 16 bits of the
  new accumulator. The accumulators of all other clients, every control word and all
  other variables stay as they were.
\<close>

theorem increment_NCO_step:
  assumes "valid_index c (accu s)" and "valid_index c (fcw s)"
  shows "\<exists>a s'. increment_NCO c s = Inr (sinetable s (unat a div 65536), s')
           \<and> unat a = (unat (accu s ! nat c) + unat (fcw s ! nat c)) mod 2 ^ 32
           \<and> unat a div 65536 < SINETABSIZE
           \<and> accu s' ! nat c = a
           \<and> (\<forall>k. k \<noteq> nat c \<longrightarrow> accu s' ! k = accu s ! k)
           \<and> length (accu s') = length (accu s)
           \<and> fcw s' = fcw s \<and> sinetable s' = sinetable s \<and> samplerate s' = samplerate s
           \<and> sht s' = sht s \<and> trx_frequency s' = trx_frequency s
           \<and> ser_command s' = ser_command s"
proof -
  let ?a = "accu s ! nat c + fcw s ! nat c"
  have "unat ?a < 2 ^ 32" using unsigned_less [of ?a] by simp
  then have "unat ?a div 65536 < SINETABSIZE" by (simp add: SINETABSIZE_def)
  moreover have "nat c < length (accu s)" using assms(1) by (simp add: valid_index_def)
  ultimately show ?thesis
    using increment_NCO_eq [OF assms]
    by (intro exI [of _ ?a] exI [of _ "s\<lparr>accu := (accu s)[nat c := ?a]\<rparr>"])
       (simp add: unat_drop_bit_16 unat_word_ariths)
qed

theorem increment_NCO_step_witness:
  "valid_index 1 (accu ((program_start 2)\<lparr>fcw := [5, 1000000000], accu := [7, 4000000000]\<rparr>))
   \<and> valid_index 1 (fcw ((program_start 2)\<lparr>fcw := [5, 1000000000], accu := [7, 4000000000]\<rparr>))
   \<and> (\<exists>a s'. increment_NCO 1
                ((program_start 2)\<lparr>fcw := [5, 1000000000], accu := [7, 4000000000]\<rparr>) =
                Inr (0, s')
        \<and> unat a = 705032704 \<and> accu s' = [7, a] \<and> fcw s' = [5, 1000000000])"
proof -
  let ?s = "(program_start 2)\<lparr>fcw := [5, 1000000000], accu := [7, 4000000000 :: 32 word]\<rparr>"
  have v: "valid_index 1 (accu ?s)" "valid_index 1 (fcw ?s)"
    by (simp_all add: valid_index_def)
  from increment_NCO_step [OF v] obtain a s' where
    r: "increment_NCO 1 ?s = Inr (sinetable ?s (unat a div 65536), s')"
      "unat a = (unat (accu ?s ! nat 1) + unat (fcw ?s ! nat 1)) mod 2 ^ 32"
      "accu s' ! nat 1 = a" "\<forall>k. k \<noteq> nat 1 \<longrightarrow> accu s' ! k = accu ?s ! k"
      "length (accu s') = length (accu ?s)" "fcw s' = fcw ?s"
    by blast
  have "accu s' ! 0 = 7" using r(4) by simp
  moreover have "accu s' ! 1 = a" using r(3) by simp
  moreover have "length (accu s') = 2" using r(5) by simp
  ultimately have "accu s' = [7, a]"
    by (simp add: list_eq_iff_nth_eq less_Suc_eq numeral_2_eq_2)
  moreover have "unat a = 705032704" using r(2) by simp
  moreover have "increment_NCO 1 ?s = Inr (0, s')" using r(1) by (simp add: program_start_def)
  ultimately show ?thesis using v r(6) by auto
qed

subsection \<open>The mixer\<close>

text \<open>
  Claim C9. The product of a 16-bit sample and a 16-bit oscillator value has a
  magnitude of at most \<open>2 ^ 30\<close>, so the 32-bit multiplication of the mixer does not
  overflow: read as a signed number, the 32-bit product is the product of the integers.
\<close>

theorem mix_no_overflow:
  "\<bar>sint sample * sint (lo :: short)\<bar> \<le> 2 ^ 30 \<and>
   sint (mix sample (scast lo)) = sint sample * sint lo"
  using abs_product_short [of sample lo] by (simp add: sint_mix)

text \<open>
  Claim C8. With \<open>lo\<close> the value that \<open>increment_NCO\<close> returns for the client and
  \<open>sht\<close> in the range of a shift count, \<open>downmixer_process\<close> returns for each of the
  two samples the integer product with \<open>lo\<close>, divided by \<open>2 ^ sht\<close> rounding down,
  cut to 16 bits; the 32-bit products are the integer products.
\<close>

theorem mixer_arithmetic:
  assumes "increment_NCO c s = Inr (lo, s1)"
    and "0 \<le> sint (sht s)" and "sint (sht s) < 32"
  shows "\<exists>s2. downmixer_process i q c s =
            Inr ((word_of_int (sint i * sint lo div 2 ^ nat (sint (sht s))),
                  word_of_int (sint q * sint lo div 2 ^ nat (sint (sht s)))), s2)
          \<and> sint (mix i (scast lo)) = sint i * sint lo
          \<and> sint (mix q (scast lo)) = sint q * sint lo"
  using downmixer_process_eq [OF assms] by (simp add: sint_mix)

theorem mixer_arithmetic_witness:
  "increment_NCO 0 ((program_start 1)\<lparr>sinetable := (\<lambda>i. 32767)\<rparr>) =
     Inr (32767, (program_start 1)\<lparr>sinetable := (\<lambda>i. 32767)\<rparr>)
   \<and> 0 \<le> sint (sht ((program_start 1)\<lparr>sinetable := (\<lambda>i. 32767)\<rparr>))
   \<and> sint (sht ((program_start 1)\<lparr>sinetable := (\<lambda>i. 32767)\<rparr>)) < 32
   \<and> (\<exists>s2. downmixer_process 1000 (- 500) 0
               ((program_start 1)\<lparr>sinetable := (\<lambda>i. 32767)\<rparr>) =
               Inr ((31999, - 16000), s2))"
proof -
  let ?s = "(program_start 1)\<lparr>sinetable := (\<lambda>i. 32767)\<rparr>"
  have sh: "0 \<le> sint (sht ?s)" "sint (sht ?s) < 32" by (simp_all add: program_start_def)
  have ten: "sint (sht ?s) = 10" by (simp add: program_start_def)
  from mixer_arithmetic [OF example_NCO sh, of 1000 "- 500"] obtain s2 where
    "downmixer_process 1000 (- 500) 0 ?s = Inr ((31999, - 16000), s2)"
    unfolding ten by auto
  then show ?thesis using example_NCO sh by blast
qed

text \<open>
  Claim C10. A call of \<open>downmixer_process\<close> for a valid client returns a state that
  differs from the old one at most in the accumulator of that client and in \<open>sht\<close>:
  the control words, the accumulators of the other clients, the sine table, the sample
  rate and the CAT variables are unchanged.
\<close>

theorem process_frame:
  assumes "valid_index c (accu s)" and "valid_index c (fcw s)"
    and "0 \<le> sint (sht s)" and "sint (sht s) < 32"
  shows "\<exists>out s'. downmixer_process i q c s = Inr (out, s')
          \<and> fcw s' = fcw s \<and> sinetable s' = sinetable s \<and> samplerate s' = samplerate s
          \<and> trx_frequency s' = trx_frequency s \<and> ser_command s' = ser_command s
          \<and> length (accu s') = length (accu s)
          \<and> (\<forall>k. k \<noteq> nat c \<longrightarrow> accu s' ! k = accu s ! k)"
proof -
  from process_step [OF assms, of i q] obtain out a n where
    "downmixer_process i q c s = Inr (out, s\<lparr>accu := (accu s)[nat c := a], sht := n\<rparr>)"
    by blast
  then show ?thesis by simp
qed

theorem process_frame_witness:
  "valid_index 1 (accu ((program_start 2)\<lparr>fcw := [5, 1000000000], accu := [7, 4000000000]\<rparr>))
   \<and> valid_index 1 (fcw ((program_start 2)\<lparr>fcw := [5, 1000000000], accu := [7, 4000000000]\<rparr>))
   \<and> 0 \<le> sint (sht ((program_start 2)\<lparr>fcw := [5, 1000000000], accu := [7, 4000000000]\<rparr>))
   \<and> sint (sht ((program_start 2)\<lparr>fcw := [5, 1000000000], accu := [7, 4000000000]\<rparr>)) < 32
   \<and> (\<exists>out s'. downmixer_process 1000 (- 500) 1
                  ((program_start 2)\<lparr>fcw := [5, 1000000000], accu := [7, 4000000000]\<rparr>) =
                  Inr (out, s')
          \<and> fcw s' = [5, 1000000000] \<and> accu s' ! 0 = 7 \<and> samplerate s' = 0)"
proof -
  let ?s = "(program_start 2)\<lparr>fcw := [5, 1000000000], accu := [7, 4000000000 :: 32 word]\<rparr>"
  have h: "valid_index 1 (accu ?s)" "valid_index 1 (fcw ?s)"
    "0 \<le> sint (sht ?s)" "sint (sht ?s) < 32"
    by (simp_all add: valid_index_def program_start_def)
  from process_frame [OF h, of 1000 "- 500"] obtain out s' where
    r: "downmixer_process 1000 (- 500) 1 ?s = Inr (out, s')"
      "fcw s' = fcw ?s" "samplerate s' = samplerate ?s"
      "\<forall>k. k \<noteq> nat 1 \<longrightarrow> accu s' ! k = accu ?s ! k"
    by blast
  have "accu s' ! 0 = 7" using r(4) by simp
  moreover have "fcw s' = [5, 1000000000]" using r(2) by simp
  moreover have "samplerate s' = 0" using r(3) by (simp add: program_start_def)
  ultimately show ?thesis using h r(1) by blast
qed

subsection \<open>The level shifter\<close>

text \<open>
  Claim C6. Over any sequence of calls of \<open>downmixer_process\<close> for valid clients that
  starts with \<open>sht\<close> between 0 and 15, every call returns, \<open>sht\<close> does not decrease,
  does not exceed 15, and once it is 15 it stays 15.
\<close>

theorem shift_monotone:
  assumes "\<forall>(i, q, c) \<in> set calls. valid_index c (accu s) \<and> valid_index c (fcw s)"
    and "0 \<le> sint (sht s)" and "sint (sht s) \<le> 15"
  shows "\<exists>s'. process_all calls s = Inr s'
          \<and> sint (sht s) \<le> sint (sht s') \<and> sint (sht s') \<le> 15
          \<and> (sint (sht s) = 15 \<longrightarrow> sht s' = sht s)"
  using assms
proof (induction calls arbitrary: s)
  case Nil
  then show ?case by simp
next
  case (Cons call calls)
  obtain i q c where call: "call = (i, q, c)" by (cases call)
  have v: "valid_index c (accu s)" "valid_index c (fcw s)"
    using Cons.prems(1) by (simp_all add: call)
  from process_shift [OF v Cons.prems(2,3), of i q] obtain out s1 where
    p: "downmixer_process i q c s = Inr (out, s1)"
    and len: "length (accu s1) = length (accu s)" "length (fcw s1) = length (fcw s)"
    and s1: "sint (sht s) \<le> sint (sht s1)" "sint (sht s1) \<le> 15"
      "sint (sht s) = 15 \<longrightarrow> sht s1 = sht s"
    by blast
  have "\<forall>(i, q, c) \<in> set calls. valid_index c (accu s1) \<and> valid_index c (fcw s1)"
    using Cons.prems(1) len by (auto simp add: valid_index_def)
  moreover have "0 \<le> sint (sht s1)" using Cons.prems(2) s1(1) by simp
  ultimately obtain s' where
    r: "process_all calls s1 = Inr s'" "sint (sht s1) \<le> sint (sht s')" "sint (sht s') \<le> 15"
      "sint (sht s1) = 15 \<longrightarrow> sht s' = sht s1"
    using Cons.IH [of s1] s1(2) by blast
  show ?case
  proof (intro exI [of _ s'] conjI)
    show "process_all (call # calls) s = Inr s'" by (simp add: call p r(1))
    show "sint (sht s) \<le> sint (sht s')" using s1(1) r(2) by simp
    show "sint (sht s') \<le> 15" by (rule r(3))
    show "sint (sht s) = 15 \<longrightarrow> sht s' = sht s" using s1(3) r(4) by auto
  qed
qed

theorem shift_monotone_witness:
  "valid_index 0 (accu ((program_start 1)\<lparr>sinetable := (\<lambda>i. 32767)\<rparr>))
   \<and> valid_index 0 (fcw ((program_start 1)\<lparr>sinetable := (\<lambda>i. 32767)\<rparr>))
   \<and> 0 \<le> sint (sht ((program_start 1)\<lparr>sinetable := (\<lambda>i. 32767)\<rparr>))
   \<and> sint (sht ((program_start 1)\<lparr>sinetable := (\<lambda>i. 32767)\<rparr>)) \<le> 15
   \<and> (\<exists>s'. process_all [(32767, 0, 0), (32767, 0, 0), (- 5, 7, 0)]
               ((program_start 1)\<lparr>sinetable := (\<lambda>i. 32767)\<rparr>) = Inr s'
          \<and> 10 \<le> sint (sht s') \<and> sint (sht s') \<le> 15)"
proof -
  let ?s = "(program_start 1)\<lparr>sinetable := (\<lambda>i. 32767)\<rparr>"
  let ?calls = "[(32767, 0, 0), (32767, 0, 0), (- 5, 7, 0)] :: (short \<times> short \<times> int) list"
  have v: "valid_index 0 (accu ?s)" "valid_index 0 (fcw ?s)"
    by (simp_all add: valid_index_def program_start_def)
  have h1: "\<forall>(i, q, c) \<in> set ?calls. valid_index c (accu ?s) \<and> valid_index c (fcw ?s)"
    using v by simp
  have ten: "sint (sht ?s) = 10" by (simp add: program_start_def)
  have h2: "0 \<le> sint (sht ?s)" and h3: "sint (sht ?s) \<le> 15"
    unfolding ten by simp_all
  from shift_monotone [OF h1 h2 h3] obtain s' where
    s': "process_all ?calls ?s = Inr s'" "sint (sht ?s) \<le> sint (sht s')" "sint (sht s') \<le> 15"
    by (elim exE conjE)
  from s'(2) have "10 \<le> sint (sht s')" unfolding ten .
  with s'(1,3) have r: "\<exists>s'. process_all ?calls ?s = Inr s'
      \<and> 10 \<le> sint (sht s') \<and> sint (sht s') \<le> 15"
    by (intro exI [of _ s']) simp
  show ?thesis by (rule conjI [OF v(1) conjI [OF v(2) conjI [OF h2 conjI [OF h3 r]]]])
qed

subsection \<open>The table and the tuner\<close>

lemma fill_sinetable_nth:
  "fill_sinetable i v tab j =
     (if i \<le> j \<and> j < SINETABSIZE
      then short_of_double (sin (v + real (j - i) * ((2 * pi) / real SINETABSIZE)) * 32768)
      else tab j)"
proof (induction i v tab rule: fill_sinetable.induct)
  case (1 i v tab)
  let ?step = "(2 * pi) / real SINETABSIZE"
  let ?e = "short_of_double (sin v * 32768)"
  show ?case
  proof (cases "i < SINETABSIZE")
    case False
    then show ?thesis by (auto simp add: fill_sinetable.simps [of i])
  next
    case True
    have unfold: "fill_sinetable i v tab j = fill_sinetable (i + 1) (v + ?step) (tab(i := ?e)) j"
      using True by (subst fill_sinetable.simps) simp
    note ih = "1.IH" [OF True]
    consider "j < i" | "j = i" | "i < j" "j < SINETABSIZE" | "i < j" "\<not> j < SINETABSIZE"
      by linarith
    then show ?thesis
    proof cases
      case 1
      then show ?thesis unfolding unfold ih by simp
    next
      case 2
      then show ?thesis unfolding unfold ih using True by simp
    next
      case 3
      have g: "a + st + d * st = a + (d + 1) * st" for a st d :: real
        by (simp add: algebra_simps)
      have "real (j - (i + 1)) + 1 = real (j - i)"
        using 3(1) by (simp add: of_nat_diff)
      then have eq: "v + ?step + real (j - (i + 1)) * ?step = v + real (j - i) * ?step"
        by (simp only: g)
      have c1: "(i + 1 \<le> j \<and> j < SINETABSIZE) = True" using 3 by simp
      have c2: "(i \<le> j \<and> j < SINETABSIZE) = True" using 3 by simp
      show ?thesis unfolding unfold ih by (simp only: c1 c2 if_True eq simp_thms)
    next
      case 4
      then show ?thesis unfolding unfold ih by simp
    qed
  qed
qed

lemma round_double_0: "round_double 0 = 0"
  by (simp add: round_double_def round_even_def)

lemma setFrequency_eq:
  assumes "valid_index c (fcw s)" and "samplerate s \<noteq> 0"
  shows "downmixer_setFrequency t fr c s =
           Inr (s\<lparr>trx_frequency := fr + t, ser_command := 2,
                   fcw := (fcw s)[nat c := uint32_of_double
                     (double_div (real_of_int (sint fr) * p232)
                                 (real_of_int (sint (samplerate s))))]\<rparr>)"
  using assms by (simp add: downmixer_setFrequency_def Let_def)

lemma default_frequencies_props:
  assumes "samplerate s \<noteq> 0" and "length (fcw s) = m" and "length (accu s) = m"
  shows "\<exists>s'. default_frequencies t m i s = Inr s'
           \<and> sinetable s' = sinetable s \<and> samplerate s' = samplerate s \<and> sht s' = sht s
           \<and> length (fcw s') = m \<and> length (accu s') = m
           \<and> (\<forall>k. k < i \<longrightarrow> accu s' ! k = accu s ! k)
           \<and> (\<forall>k. i \<le> k \<and> k < m \<longrightarrow> accu s' ! k = 0)"
  using assms
proof (induction t m i s rule: default_frequencies.induct)
  case (1 t m i s)
  show ?case
  proof (cases "i < m")
    case False
    then show ?thesis using "1.prems" by (auto simp add: default_frequencies.simps [of t m i])
  next
    case True
    let ?w = "uint32_of_double (double_div (real_of_int (sint (10000 :: cint)) * p232)
                (real_of_int (sint (samplerate s))))"
    let ?s1 = "s\<lparr>trx_frequency := 10000 + t, ser_command := 2, fcw := (fcw s)[nat (int i) := ?w]\<rparr>"
    let ?s2 = "?s1\<lparr>accu := (accu ?s1)[i := 0]\<rparr>"
    have v: "valid_index (int i) (fcw s)" "valid_index (int i) (accu s)"
      using True "1.prems" by (simp_all add: valid_index_def)
    have sf: "downmixer_setFrequency t 10000 (int i) s = Inr ?s1"
      using setFrequency_eq [OF v(1) "1.prems"(1)] by simp
    have v1: "\<not> \<not> valid_index (int i) (accu ?s1)" using v(2) by simp
    have step: "default_frequencies t m i s = default_frequencies t m (i + 1) ?s2"
      using True v(2) by (subst default_frequencies.simps) (simp add: sf)
    from "1.IH" [OF True sf v1] "1.prems" obtain s' where
      r: "default_frequencies t m (i + 1) ?s2 = Inr s'"
        "sinetable s' = sinetable ?s2" "samplerate s' = samplerate ?s2" "sht s' = sht ?s2"
        "length (fcw s') = m" "length (accu s') = m"
        "\<forall>k. k < i + 1 \<longrightarrow> accu s' ! k = accu ?s2 ! k"
        "\<forall>k. i + 1 \<le> k \<and> k < m \<longrightarrow> accu s' ! k = 0"
      by auto
    have lo: "accu s' ! k = accu s ! k" if "k < i" for k
      using that r(7) by simp
    have "accu s' ! i = 0"
      using r(7) True "1.prems" by simp
    then have hi: "accu s' ! k = 0" if "i \<le> k" "k < m" for k
      using that r(8) by (cases "k = i") simp_all
    show ?thesis unfolding step using r(1-6) lo hi by simp
  qed
qed

lemma downmixer_init_props:
  assumes "rate \<noteq> 0" and "length (fcw s) = m" and "length (accu s) = m"
  shows "\<exists>s'. downmixer_init rate t m s = Inr s'
           \<and> sinetable s' = fill_sinetable 0 0 (sinetable s)
           \<and> samplerate s' = rate \<and> sht s' = sht s
           \<and> length (fcw s') = m \<and> length (accu s') = m
           \<and> (\<forall>k. k < m \<longrightarrow> accu s' ! k = 0)"
proof -
  let ?s2 = "s\<lparr>samplerate := rate, sinetable := fill_sinetable 0 0 (sinetable s)\<rparr>"
  have "samplerate ?s2 \<noteq> 0" "length (fcw ?s2) = m" "length (accu ?s2) = m"
    using assms by simp_all
  from default_frequencies_props [OF this, of t 0] show ?thesis
    by (auto simp add: downmixer_init_def Let_def)
qed

lemma sinetable_0: "fill_sinetable 0 0 tab 0 = 0"
  by (simp add: fill_sinetable_nth SINETABSIZE_def short_of_double_def trunc_double_def)

lemma sinetable_49152: "fill_sinetable 0 0 tab 49152 = - 32768"
proof -
  have "49152 * (2 * pi / 65536) = 3 / 2 * pi" by simp
  then have "sin (49152 * (2 * pi / 65536)) = - 1" by (simp only: sin_3over2_pi)
  then show ?thesis
    by (simp add: fill_sinetable_nth SINETABSIZE_def short_of_double_def trunc_double_def)
qed

lemma round_even_ge_floor: "\<lfloor>x\<rfloor> \<le> round_even x"
  by (simp add: round_even_def Let_def)

lemma round_even_le: "of_int (round_even x) \<le> x + 1 / 2"
proof -
  have f: "of_int \<lfloor>x\<rfloor> \<le> x" by simp
  consider "x - of_int \<lfloor>x\<rfloor> < 1 / 2" | "1 / 2 \<le> x - of_int \<lfloor>x\<rfloor>"
    by linarith
  then show ?thesis
  proof cases
    case 1
    then have "round_even x = \<lfloor>x\<rfloor>" by (simp add: round_even_def Let_def)
    then have "of_int (round_even x) = (of_int \<lfloor>x\<rfloor> :: real)" by simp
    with f show ?thesis by linarith
  next
    case 2
    have "round_even x \<le> \<lfloor>x\<rfloor> + 1" by (simp add: round_even_def Let_def)
    then have "of_int (round_even x) \<le> (of_int (\<lfloor>x\<rfloor> + 1) :: real)"
      by (simp only: of_int_le_iff)
    with 2 show ?thesis by simp
  qed
qed

lemma round_double_quotient:
  fixes a b :: int
  assumes a: "0 \<le> a" and b: "0 < b" "b < 2 ^ 22" and q: "a div b < 2 ^ 32"
  shows "trunc_double (round_double (of_int a / of_int b)) = a div b"
proof -
  define q :: real where "q = of_int a / of_int b"
  define n where "n = a div b"
  have n: "n = \<lfloor>q\<rfloor>" by (simp add: n_def q_def floor_divide_of_int_eq)
  have n0: "0 \<le> n" using a b by (simp add: n_def pos_imp_zdiv_nonneg_iff)
  have q0: "0 \<le> q" using a b by (simp add: q_def)
  have nq: "of_int n \<le> q" by (simp add: n)
  define k where "k = nat (53 - bitlen n)"
  have "bitlen n \<le> 32" using q by (simp add: bitlen_le_iff_power n_def)
  moreover have "0 \<le> bitlen n" by (rule bitlen_nonneg)
  ultimately have k: "21 \<le> k" "bitlen n - 1 - 52 = - int k" by (simp_all add: k_def)
  define S :: real where "S = 2 ^ k"
  have S0: "0 < S" by (simp add: S_def)
  have "(2::real) ^ 21 \<le> 2 ^ k" using k(1) by (intro power_increasing) simp_all
  then have S21: "2097152 \<le> S" by (simp add: S_def)
  have "(2::real) powi (- int k) = 1 / S"
    by (simp add: power_int_minus S_def field_simps)
  moreover have "\<lfloor>\<bar>q\<bar>\<rfloor> = n" using q0 by (simp add: n)
  ultimately have u: "(2::real) powi (bitlen \<lfloor>\<bar>q\<bar>\<rfloor> - 1 - 52) = 1 / S"
    by (simp only: k(2))
  define m where "m = round_even (q * S)"
  have rd: "round_double q = of_int m / S"
    unfolding round_double_def Let_def u by (simp add: m_def)
  have "of_int n * S \<le> q * S" using nq S0 by simp
  moreover have "of_int n * S = of_int (n * 2 ^ k)" by (simp add: S_def)
  ultimately have "n * 2 ^ k \<le> \<lfloor>q * S\<rfloor>" by (simp add: le_floor_iff)
  then have "n * 2 ^ k \<le> m" using round_even_ge_floor [of "q * S"] by (simp add: m_def)
  then have "of_int (n * 2 ^ k) \<le> (of_int m :: real)" by (simp only: of_int_le_iff)
  then have lower: "of_int n \<le> of_int m / S"
    using S0 by (simp add: S_def field_simps)
  have "a < (n + 1) * b"
    using b(1) by (metis n_def add.commute div_mult_mod_eq mult.commute distrib_right
        mult_1 add_less_cancel_left pos_mod_bound)
  then have "a + 1 \<le> (n + 1) * b" by simp
  then have "of_int (a + 1) \<le> (of_int ((n + 1) * b) :: real)" by (simp only: of_int_le_iff)
  then have "q + 1 / of_int b \<le> of_int n + 1"
    using b(1) by (simp add: q_def field_simps)
  then have "(q + 1 / of_int b) * S \<le> (of_int n + 1) * S"
    using S0 by simp
  then have qs: "q * S + S / of_int b \<le> (of_int n + 1) * S"
    by (simp add: algebra_simps)
  have "of_int b < (4194304 :: real)" using b(2) by (simp flip: of_int_less_iff)
  then have "of_int b < 2 * S" using S21 by simp
  then have "1 / 2 < S / of_int b" using b(1) by (simp add: field_simps)
  with qs have "q * S + 1 / 2 < (of_int n + 1) * S" by linarith
  moreover have "of_int m \<le> q * S + 1 / 2"
    unfolding m_def by (rule round_even_le)
  ultimately have "of_int m < (of_int n + 1) * S" by linarith
  then have upper: "of_int m / S < of_int n + 1"
    using S0 by (simp add: field_simps)
  have "\<lfloor>of_int m / S\<rfloor> = n"
    using lower upper by (simp add: floor_eq_iff)
  moreover have "0 \<le> of_int m / S" using lower n0 by simp
  ultimately show ?thesis
    by (simp add: rd trunc_double_def q_def [symmetric] n_def)
qed

lemma double_div_0: "double_div (real_of_int (sint (0 :: cint)) * p232) y = 0"
  by (simp add: double_div_def round_double_0)

lemma uint32_of_double_0: "uint32_of_double 0 = 0"
  by (simp add: uint32_of_double_def trunc_double_def)

lemma process_zero:
  assumes v: "valid_index c (accu s)" "valid_index c (fcw s)"
    and z: "fcw s ! nat c = 0" "sinetable s (unat (drop_bit 16 (accu s ! nat c))) = 0"
    and sh: "0 \<le> sint (sht s)" "sint (sht s) < 32"
  shows "downmixer_process i q c s = Inr ((0, 0), s)"
proof -
  have "increment_NCO c s = Inr (0, s)"
    using z by (simp add: increment_NCO_eq [OF v])
  from downmixer_process_eq [OF this sh] show ?thesis by simp
qed

lemma process_repeat_zero:
  assumes "valid_index c (accu s)" "valid_index c (fcw s)"
    and "fcw s ! nat c = 0" "sinetable s (unat (drop_bit 16 (accu s ! nat c))) = 0"
    and "0 \<le> sint (sht s)" "sint (sht s) < 32"
  shows "process_repeat n i q c s = Inr (replicate n (0, 0), s)"
  by (induction n) (simp_all add: process_zero [OF assms])

lemma start_and_tune_props:
  assumes "rate \<noteq> 0" and "valid_index c (replicate m (0 :: uint32_t))"
  shows "\<exists>s. start_and_tune rate t m fr c = Inr s
          \<and> sinetable s = fill_sinetable 0 0 (\<lambda>i. 0) \<and> samplerate s = rate \<and> sht s = 10
          \<and> length (fcw s) = m \<and> length (accu s) = m
          \<and> (\<forall>k. k < m \<longrightarrow> accu s ! k = 0)
          \<and> fcw s ! nat c = uint32_of_double
               (double_div (real_of_int (sint fr) * p232) (real_of_int (sint rate)))
          \<and> trx_frequency s = fr + t \<and> ser_command s = 2"
proof -
  have "length (fcw (program_start m)) = m" "length (accu (program_start m)) = m"
    by (simp_all add: program_start_def)
  from downmixer_init_props [OF assms(1) this, of t] obtain s0 where
    i: "downmixer_init rate t m (program_start m) = Inr s0"
      "sinetable s0 = fill_sinetable 0 0 (sinetable (program_start m))"
      "samplerate s0 = rate" "sht s0 = sht (program_start m)"
      "length (fcw s0) = m" "length (accu s0) = m" "\<forall>k. k < m \<longrightarrow> accu s0 ! k = 0"
    by blast
  have v: "valid_index c (fcw s0)" using assms(2) i(5) by (simp add: valid_index_def)
  have nz: "samplerate s0 \<noteq> 0" using assms(1) i(3) by simp
  have "nat c < length (fcw s0)" using v by (simp add: valid_index_def)
  then show ?thesis
    using i by (simp add: start_and_tune_def then_do_def setFrequency_eq [OF v nz]
        program_start_def)
qed

lemma control_word_in_range:
  assumes r: "0 < sint rate" "sint rate < 2 ^ 22"
    and f: "0 \<le> sint fr" "sint fr * 2 ^ 32 div sint rate < 2 ^ 32"
  shows "uint32_of_double (double_div (real_of_int (sint fr) * p232) (real_of_int (sint rate)))
         = word_of_int (sint fr * 2 ^ 32 div sint rate)"
proof -
  have p: "real_of_int (sint fr) * p232 = of_int (sint fr * 2 ^ 32)"
    by (simp add: p232_def)
  have "0 \<le> sint fr * 2 ^ 32" using f(1) by simp
  from round_double_quotient [OF this r f(2)]
  have "trunc_double (double_div (real_of_int (sint fr) * p232) (real_of_int (sint rate)))
          = sint fr * 2 ^ 32 div sint rate"
    unfolding double_div_def p .
  then show ?thesis by (simp add: uint32_of_double_def)
qed

lemma zero_offset_run:
  assumes "rate \<noteq> 0" and "0 < m"
  shows "\<exists>s. start_and_tune rate t m 0 0 = Inr s
          \<and> fcw s ! 0 = 0 \<and> accu s ! 0 = 0 \<and> sinetable s 0 = 0 \<and> sht s = 10
          \<and> increment_NCO 0 s = Inr (0, s)
          \<and> process_repeat n i q 0 s = Inr (replicate n (0, 0), s)"
proof -
  have v0: "valid_index 0 (replicate m (0 :: uint32_t))"
    using assms(2) by (simp add: valid_index_def)
  from start_and_tune_props [OF assms(1) v0, of t 0] obtain s where
    s: "start_and_tune rate t m 0 0 = Inr s"
      "sinetable s = fill_sinetable 0 0 (\<lambda>i. 0)" "sht s = 10"
      "length (fcw s) = m" "length (accu s) = m" "\<forall>k. k < m \<longrightarrow> accu s ! k = 0"
      "fcw s ! nat 0 = uint32_of_double
         (double_div (real_of_int (sint (0 :: cint)) * p232) (real_of_int (sint rate)))"
    by blast
  have v: "valid_index 0 (accu s)" "valid_index 0 (fcw s)"
    using assms(2) s(4,5) by (simp_all add: valid_index_def)
  have f: "fcw s ! nat 0 = 0"
    unfolding s(7) double_div_0 by (rule uint32_of_double_0)
  have a: "accu s ! 0 = 0" using s(6) assms(2) by simp
  have tb: "sinetable s (unat (drop_bit 16 (accu s ! nat 0))) = 0"
    by (simp add: a s(2) sinetable_0)
  have sh: "0 \<le> sint (sht s)" "sint (sht s) < 32" by (simp_all add: s(3))
  have "increment_NCO 0 s = Inr (0, s)"
    using f tb by (simp add: increment_NCO_eq [OF v])
  moreover note process_repeat_zero [OF v f tb sh, of n i q]
  moreover have "sinetable s 0 = 0" by (simp add: s(2) sinetable_0)
  ultimately show ?thesis using s(1,3) f a by simp
qed


text \<open>
  Claim C1, as amended. After \<open>downmixer_init\<close> and \<open>downmixer_setFrequency(0, 0)\<close> the
  control word and the accumulator of client 0 are 0, so the oscillator returns the
  table entry 0 on every step, which is \<open>sin 0 * 32768 = 0\<close>: every call of
  \<open>downmixer_process\<close> on \<open>(1000, -500)\<close> returns \<open>(0, 0)\<close> and leaves the state,
  with \<open>sht = 10\<close>, as it was.
\<close>

theorem zero_offset_outputs:
  assumes "rate \<noteq> 0" and "0 < m"
  shows "\<exists>s. start_and_tune rate t m 0 0 = Inr s
          \<and> sht s = 10 \<and> increment_NCO 0 s = Inr (0, s)
          \<and> process_repeat n 1000 (- 500) 0 s = Inr (replicate n (0, 0), s)"
  using zero_offset_run [OF assms, of t n 1000 "- 500"] by blast

theorem zero_offset_outputs_witness:
  "(2400000 :: cint) \<noteq> 0 \<and> (0 :: nat) < 20
   \<and> (\<exists>s. start_and_tune 2400000 739525000 20 0 0 = Inr s
          \<and> sht s = 10 \<and> increment_NCO 0 s = Inr (0, s)
          \<and> process_repeat 3 1000 (- 500) 0 s = Inr ([(0, 0), (0, 0), (0, 0)], s))"
proof -
  have h: "(2400000 :: cint) \<noteq> 0" "(0 :: nat) < 20" by simp_all
  from zero_offset_outputs [OF h, of 739525000 3] show ?thesis
    by (simp add: numeral_3_eq_3)
qed

text \<open>
  The scenario as the specification has it fails: the outputs are \<open>(0, 0)\<close>, not the
  input scaled by a constant, and the oscillator value is 0, not near full scale.
\<close>

theorem zero_offset_counterexample:
  "map_sum id fst (then_do (start_and_tune 2400000 739525000 20 0 0)
                          (process_repeat 2 1000 (- 500) 0))
     = Inr [(0, 0), (0, 0)]
   \<and> map_sum id fst (then_do (start_and_tune 2400000 739525000 20 0 0) (increment_NCO 0))
     = Inr 0"
proof -
  have h: "(2400000 :: cint) \<noteq> 0" "(0 :: nat) < 20" by simp_all
  from zero_offset_run [OF h, of 739525000 2 1000 "- 500"] show ?thesis
    by (auto simp add: then_do_def numeral_2_eq_2)
qed

subsection \<open>The trigger of the level shifter\<close>

lemma tuned_run:
  assumes r: "0 < sint rate" "sint rate < 2 ^ 22" and m: "0 < m"
    and f: "0 \<le> sint fr" "sint fr * 2 ^ 32 div sint rate < 2 ^ 32"
  shows "\<exists>s. start_and_tune rate t m fr 0 = Inr s
          \<and> sinetable s = fill_sinetable 0 0 (\<lambda>i. 0) \<and> samplerate s = rate \<and> sht s = 10
          \<and> valid_index 0 (accu s) \<and> valid_index 0 (fcw s)
          \<and> accu s ! 0 = 0 \<and> fcw s ! 0 = word_of_int (sint fr * 2 ^ 32 div sint rate)"
proof -
  have nz: "rate \<noteq> 0" using r(1) by auto
  have v0: "valid_index 0 (replicate m (0 :: uint32_t))"
    using m by (simp add: valid_index_def)
  from start_and_tune_props [OF nz v0, of t fr] obtain s where
    s: "start_and_tune rate t m fr 0 = Inr s"
      "sinetable s = fill_sinetable 0 0 (\<lambda>i. 0)" "samplerate s = rate" "sht s = 10"
      "length (fcw s) = m" "length (accu s) = m" "\<forall>k. k < m \<longrightarrow> accu s ! k = 0"
      "fcw s ! nat 0 = uint32_of_double
         (double_div (real_of_int (sint fr) * p232) (real_of_int (sint rate)))"
    by blast
  have "fcw s ! 0 = word_of_int (sint fr * 2 ^ 32 div sint rate)"
    using s(8) control_word_in_range [OF r f] by simp
  moreover have "accu s ! 0 = 0" using s(7) m by simp
  moreover have "valid_index 0 (accu s)" "valid_index 0 (fcw s)"
    using m s(5,6) by (simp_all add: valid_index_def)
  ultimately show ?thesis using s(1-4) by simp
qed

lemma tuned_1800000:
  "\<exists>s. start_and_tune 2400000 739525000 20 1800000 0 = Inr s
      \<and> increment_NCO 0 s =
          Inr (- 32768, s\<lparr>accu := (accu s)[0 := 3221225472]\<rparr>)
      \<and> sht s = 10"
proof -
  have h: "0 < sint (2400000 :: cint)" "sint (2400000 :: cint) < 2 ^ 22" "(0 :: nat) < 20"
    "0 \<le> sint (1800000 :: cint)"
    "sint (1800000 :: cint) * 2 ^ 32 div sint (2400000 :: cint) < 2 ^ 32"
    by simp_all
  from tuned_run [OF h, of 739525000] obtain s where
    s: "start_and_tune 2400000 739525000 20 1800000 0 = Inr s"
      "sinetable s = fill_sinetable 0 0 (\<lambda>i. 0)" "sht s = 10"
      "valid_index 0 (accu s)" "valid_index 0 (fcw s)"
      "accu s ! 0 = 0"
      "fcw s ! 0 = word_of_int (sint (1800000 :: cint) * 2 ^ 32 div sint (2400000 :: cint))"
    by blast
  have f: "fcw s ! 0 = 3221225472" unfolding s(7) by simp
  have "increment_NCO 0 s = Inr (- 32768, s\<lparr>accu := (accu s)[0 := 3221225472]\<rparr>)"
    by (simp add: increment_NCO_eq [OF s(4,5)] s(6) f s(2) unat_drop_bit_16 sinetable_49152)
  then show ?thesis using s(1,3) by blast
qed

text \<open>
  Claim C2, as amended. With \<open>lo\<close> the value of the oscillator, a call of
  \<open>downmixer_process\<close> increments \<open>sht\<close> by exactly 1 if the rescaled product of the
  I sample, \<open>(iSample * lo) >> sht\<close> read as a signed number, is greater than 32767 and
  \<open>sht < 15\<close>; in every other case \<open>sht\<close> is unchanged. Neither the Q product nor a
  negative I product enters the test.
\<close>

theorem shift_trigger:
  assumes "increment_NCO c s = Inr (lo, s1)"
    and "0 \<le> sint (sht s)" and "sint (sht s) < 32"
  shows "\<exists>out s2. downmixer_process i q c s = Inr (out, s2)
          \<and> (if 32767 < sint i * sint lo div 2 ^ nat (sint (sht s)) \<and> sint (sht s) < 15
              then sint (sht s2) = sint (sht s) + 1
              else sht s2 = sht s)"
  using downmixer_process_eq [OF assms, of i q] sint_sht_Suc [OF assms(2)]
  by (simp add: increment_NCO_sht [OF assms(1)])

theorem shift_trigger_witness:
  "increment_NCO 0 ((program_start 1)\<lparr>sinetable := (\<lambda>i. 32767)\<rparr>) =
     Inr (32767, (program_start 1)\<lparr>sinetable := (\<lambda>i. 32767)\<rparr>)
   \<and> 0 \<le> sint (sht ((program_start 1)\<lparr>sinetable := (\<lambda>i. 32767)\<rparr>))
   \<and> sint (sht ((program_start 1)\<lparr>sinetable := (\<lambda>i. 32767)\<rparr>)) < 32
   \<and> (\<exists>out s2. downmixer_process 32767 0 0
                   ((program_start 1)\<lparr>sinetable := (\<lambda>i. 32767)\<rparr>) = Inr (out, s2)
          \<and> sint (sht s2) = 11)"
proof -
  let ?s = "(program_start 1)\<lparr>sinetable := (\<lambda>i. 32767)\<rparr>"
  have sh: "0 \<le> sint (sht ?s)" "sint (sht ?s) < 32" by (simp_all add: program_start_def)
  have ten: "sint (sht ?s) = 10" by (simp add: program_start_def)
  from shift_trigger [OF example_NCO sh, of 32767 0] obtain out s2 where
    "downmixer_process 32767 0 0 ?s = Inr (out, s2)" "sint (sht s2) = 11"
    unfolding ten by auto
  then show ?thesis using example_NCO sh by blast
qed

text \<open>
  The claim as the specification has it fails for a negative product: with the
  oscillator at \<open>-32768\<close> and both samples 32767 the rescaled products have magnitude
  1048544, far above 32767, and \<open>sht\<close> stays 10.
\<close>

theorem shift_trigger_counterexample:
  "map_sum id (\<lambda>(out, s). (out, sht s))
     (then_do (start_and_tune 2400000 739525000 20 1800000 0)
              (downmixer_process 32767 32767 0))
     = Inr ((32, 32), 10)
   \<and> map_sum id fst (then_do (start_and_tune 2400000 739525000 20 1800000 0) (increment_NCO 0))
     = Inr (- 32768)
   \<and> \<bar>sint (32767 :: short) * sint (- 32768 :: short) div 2 ^ 10\<bar> = 1048544"
proof -
  from tuned_1800000 obtain s where
    s: "start_and_tune 2400000 739525000 20 1800000 0 = Inr s"
      "increment_NCO 0 s = Inr (- 32768, s\<lparr>accu := (accu s)[0 := 3221225472]\<rparr>)"
      "sht s = 10"
    by blast
  have sh: "0 \<le> sint (sht s)" "sint (sht s) < 32" by (simp_all add: s(3))
  have "downmixer_process 32767 32767 0 s =
          Inr ((32, 32), s\<lparr>accu := (accu s)[0 := 3221225472]\<rparr>)"
    using downmixer_process_eq [OF s(2) sh, of 32767 32767] by (simp add: s(3))
  then show ?thesis using s by (simp add: then_do_def)
qed

subsection \<open>The contents of the sine table\<close>

lemma sin_table_less_1:
  assumes "i < 65536" and "i \<noteq> 16384"
  shows "sin (2 * pi * real i / 65536) < 1"
proof -
  let ?x = "2 * pi * real i / 65536"
  have "sin ?x \<noteq> 1"
  proof
    assume "sin ?x = 1"
    then have "cos (?x - pi / 2) = 1" by (simp add: cos_diff)
    then obtain n :: int where n: "?x - pi / 2 = of_int n * 2 * pi"
      using cos_one_2pi_int by blast
    have "pi * (real i - 16384 - 65536 * of_int n) = 32768 * (?x - pi / 2 - of_int n * 2 * pi)"
      by (simp add: algebra_simps)
    also have "\<dots> = 0" using n by simp
    finally have "real i - 16384 - 65536 * of_int n = 0" by simp
    then have "real_of_int (int i) = of_int (16384 + 65536 * n)" by simp
    then have i: "int i = 16384 + 65536 * n" by (simp only: of_int_eq_iff)
    have "int i < 65536" "0 \<le> int i" using assms(1) by simp_all
    with i have "n < 1" "- 1 < n" by linarith+
    then have "n = 0" by linarith
    with i have "i = 16384" by simp
    then show False using assms(2) by simp
  qed
  then show ?thesis using sin_le_one [of ?x] by linarith
qed

lemma trunc_double_short:
  assumes "- 32768 \<le> x" and "x < 32768"
  shows "- 32768 \<le> trunc_double x" and "trunc_double x \<le> 32767"
proof -
  show "- 32768 \<le> trunc_double x"
  proof (cases "x < 0")
    case True
    have "- 32768 \<le> \<lceil>x\<rceil>" using assms(1) by (simp add: le_ceiling_iff)
    then show ?thesis using True by (simp add: trunc_double_def)
  next
    case False
    then have "0 \<le> \<lfloor>x\<rfloor>" by simp
    then show ?thesis using False by (simp add: trunc_double_def)
  qed
  show "trunc_double x \<le> 32767"
  proof (cases "x < 0")
    case True
    then have "\<lceil>x\<rceil> \<le> 0" by (simp add: ceiling_le_iff)
    then show ?thesis using True by (simp add: trunc_double_def)
  next
    case False
    have "\<lfloor>x\<rfloor> < 32768" using assms(2) by (simp add: floor_less_iff)
    then show ?thesis using False by (simp add: trunc_double_def)
  qed
qed

lemma sint_short_of_double:
  assumes "- 32768 \<le> x" and "x < 32768"
  shows "sint (short_of_double x) = trunc_double x"
  using trunc_double_short [OF assms]
  by (simp add: short_of_double_def signed_of_int signed_take_bit_int_eq_self)

lemma init_table:
  assumes "rate \<noteq> 0" and "length (fcw s) = m" and "length (accu s) = m"
  shows "\<exists>s'. downmixer_init rate t m s = Inr s'
          \<and> (\<forall>i. sinetable s' i =
                (if i < 65536 then short_of_double (sin (2 * pi * real i / 65536) * 32768)
                 else sinetable s i))"
proof -
  from downmixer_init_props [OF assms, of t] obtain s' where
    s': "downmixer_init rate t m s = Inr s'" "sinetable s' = fill_sinetable 0 0 (sinetable s)"
    by blast
  have "fill_sinetable 0 0 tab i =
          (if i < 65536 then short_of_double (sin (2 * pi * real i / 65536) * 32768)
           else tab i)" for tab i
  proof -
    have e: "0 + real (i - 0) * (2 * pi / real SINETABSIZE) = 2 * pi * real i / 65536"
      by (simp add: SINETABSIZE_def)
    have c: "(0 \<le> i \<and> i < SINETABSIZE) = (i < 65536)"
      by (simp add: SINETABSIZE_def)
    show ?thesis unfolding fill_sinetable_nth e c by (rule refl)
  qed
  then have "\<forall>i. sinetable s' i =
                (if i < 65536 then short_of_double (sin (2 * pi * real i / 65536) * 32768)
                 else sinetable s i)"
    by (simp only: s'(2) simp_thms)
  with s'(1) show ?thesis by blast
qed

lemma table_entry_49152:
  "short_of_double (sin (2 * pi * real (49152 :: nat) / 65536) * 32768) = - 32768"
proof -
  have "2 * pi * real (49152 :: nat) / 65536 = 3 / 2 * pi" by simp
  then have "sin (2 * pi * real (49152 :: nat) / 65536) = - 1" by (simp only: sin_3over2_pi)
  then show ?thesis by (simp add: short_of_double_def trunc_double_def)
qed

text \<open>
  Claim C4, as amended. \<open>downmixer_init\<close> writes every index below 65536 and no other.
  Entry \<open>i\<close> is \<open>sin(2\<pi>i/65536) * 32768\<close> with the fraction dropped (rounded towards
  zero), for every \<open>i\<close> except 16384, where the product is 32768 and does not fit a
  \<open>short\<close>; every entry lies between \<open>-32768\<close> and 32767.
\<close>

theorem sinetable_contents:
  assumes "rate \<noteq> 0" and "length (fcw s) = m" and "length (accu s) = m"
  shows "\<exists>s'. downmixer_init rate t m s = Inr s'
          \<and> (\<forall>i < 65536. i \<noteq> 16384 \<longrightarrow>
                sint (sinetable s' i) = trunc_double (sin (2 * pi * real i / 65536) * 32768))
          \<and> (\<forall>i < 65536. - 32768 \<le> sint (sinetable s' i) \<and> sint (sinetable s' i) \<le> 32767)
          \<and> (\<forall>i \<ge> 65536. sinetable s' i = sinetable s i)"
proof -
  from init_table [OF assms, of t] obtain s' where
    s': "downmixer_init rate t m s = Inr s'"
      "\<forall>i. sinetable s' i =
         (if i < 65536 then short_of_double (sin (2 * pi * real i / 65536) * 32768)
          else sinetable s i)"
    by blast
  have "sint (sinetable s' i) = trunc_double (sin (2 * pi * real i / 65536) * 32768)"
    if "i < 65536" "i \<noteq> 16384" for i
  proof -
    have "sin (2 * pi * real i / 65536) * 32768 < 32768"
      using sin_table_less_1 [OF that] by simp
    moreover have "- 32768 \<le> sin (2 * pi * real i / 65536) * 32768"
      using sin_ge_minus_one [of "2 * pi * real i / 65536"] by simp
    ultimately show ?thesis
      using that(1) s'(2) by (simp add: sint_short_of_double)
  qed
  moreover have "- 32768 \<le> sint (sinetable s' i) \<and> sint (sinetable s' i) \<le> 32767" for i
    using sint_short_bounds [of "sinetable s' i"] by simp
  moreover have "sinetable s' i = sinetable s i" if "65536 \<le> i" for i
    using that s'(2) by simp
  ultimately show ?thesis using s'(1) by blast
qed

theorem sinetable_contents_witness:
  "(2400000 :: cint) \<noteq> 0 \<and> length (fcw (program_start 20)) = 20
   \<and> length (accu (program_start 20)) = 20
   \<and> (\<exists>s'. downmixer_init 2400000 739525000 20 (program_start 20) = Inr s'
          \<and> sint (sinetable s' 0) = 0 \<and> sint (sinetable s' 49152) = - 32768
          \<and> sinetable s' 65536 = 0)"
proof -
  have h: "(2400000 :: cint) \<noteq> 0" "length (fcw (program_start 20)) = 20"
    "length (accu (program_start 20)) = 20"
    by (simp_all add: program_start_def)
  from sinetable_contents [OF h, of 739525000] obtain s' where
    s': "downmixer_init 2400000 739525000 20 (program_start 20) = Inr s'"
      "\<forall>i < 65536. i \<noteq> 16384 \<longrightarrow>
         sint (sinetable s' i) = trunc_double (sin (2 * pi * real i / 65536) * 32768)"
      "\<forall>i \<ge> 65536. sinetable s' i = sinetable (program_start 20) i"
    by blast
  have "sint (sinetable s' 0) = 0" using s'(2) by (simp add: trunc_double_def)
  moreover have "sint (sinetable s' 49152) = - 32768"
  proof -
    have "2 * pi * real (49152 :: nat) / 65536 = 3 / 2 * pi" by simp
    then have "sin (2 * pi * real (49152 :: nat) / 65536) = - 1" by (simp only: sin_3over2_pi)
    moreover have "sint (sinetable s' 49152)
        = trunc_double (sin (2 * pi * real (49152 :: nat) / 65536) * 32768)"
      using s'(2) by simp
    ultimately show ?thesis by (simp add: trunc_double_def)
  qed
  moreover have "sinetable s' 65536 = 0" using s'(3) by (simp add: program_start_def)
  ultimately show ?thesis using h s'(1) by blast
qed

text \<open>
  The formula of the specification, with the factor 32767 and rounding to nearest, gives
  \<open>-32767\<close> at index 49152, where the table holds \<open>-32768\<close>.
\<close>

theorem sinetable_counterexample:
  "map_sum id (\<lambda>s. sint (sinetable s 49152))
     (downmixer_init 2400000 739525000 20 (program_start 20)) = Inr (- 32768)
   \<and> spec_amplitude 49152 = - 32767"
proof -
  have h: "(2400000 :: cint) \<noteq> 0" "length (fcw (program_start 20)) = 20"
    "length (accu (program_start 20)) = 20"
    by (simp_all add: program_start_def)
  from init_table [OF h, of 739525000] obtain s' where
    s': "downmixer_init 2400000 739525000 20 (program_start 20) = Inr s'"
      "\<forall>i. sinetable s' i =
         (if i < 65536 then short_of_double (sin (2 * pi * real i / 65536) * 32768)
          else sinetable (program_start 20) i)"
    by blast
  have "sinetable s' 49152 = - 32768"
    using s'(2) table_entry_49152 by simp
  moreover have "spec_amplitude 49152 = - 32767"
  proof -
    have "2 * pi * real (49152 :: nat) / 65536 = 3 / 2 * pi" by simp
    then have "sin (2 * pi * real (49152 :: nat) / 65536) = - 1" by (simp only: sin_3over2_pi)
    then show ?thesis by (simp add: spec_amplitude_def)
  qed
  ultimately show ?thesis by (simp add: s'(1))
qed

subsection \<open>The control word\<close>

lemma uint_word_of_int_32:
  assumes "0 \<le> n" and "n < 2 ^ 32"
  shows "uint (word_of_int n :: uint32_t) = n"
  using assms by (simp add: uint_word_of_int take_bit_int_eq_self)

lemma quotient_less:
  fixes a b :: int
  assumes "0 < b" and "a < b"
  shows "a * 2 ^ 32 div b < 2 ^ 32"
proof (rule ccontr)
  let ?n = "a * 2 ^ 32 div b"
  assume "\<not> ?n < 2 ^ 32"
  then have "2 ^ 32 \<le> ?n" by simp
  then have "b * 2 ^ 32 \<le> b * ?n" using assms(1) by (intro mult_left_mono) simp_all
  moreover have "b * ?n + a * 2 ^ 32 mod b = a * 2 ^ 32" by (rule mult_div_mod_eq)
  moreover have "0 \<le> a * 2 ^ 32 mod b" using assms(1) by simp
  ultimately have "b * 2 ^ 32 \<le> a * 2 ^ 32" by linarith
  then show False using assms(2) by simp
qed

lemma round_double_minus_2_30: "round_double (- 1073741824) = - 1073741824"
proof -
  have b: "bitlen 1073741824 = 31" by code_simp
  have u: "(2 :: real) powi (- 22) = 1 / 4194304"
    by (simp add: power_int_minus field_simps)
  show ?thesis
    by (simp add: round_double_def Let_def b u round_even_def)
qed

text \<open>
  Claim C3, as amended. For a valid client, a sample rate below \<open>2 ^ 22\<close> and an offset
  \<open>0 \<le> fr < samplerate\<close>, \<open>downmixer_setFrequency\<close> stores the quotient
  \<open>fr * 2^32 / samplerate\<close> with the fraction dropped: the double-precision division
  followed by the conversion to \<open>uint32_t\<close> rounds down, not to the nearest integer.
\<close>

theorem controlWord_truncates:
  assumes "valid_index c (fcw s)"
    and "0 < sint (samplerate s)" and "sint (samplerate s) < 2 ^ 22"
    and "0 \<le> sint fr" and "sint fr < sint (samplerate s)"
  shows "\<exists>s'. downmixer_setFrequency t fr c s = Inr s'
          \<and> uint (fcw s' ! nat c) =
              \<lfloor>real_of_int (sint fr) * 2 ^ 32 / real_of_int (sint (samplerate s))\<rfloor>
          \<and> length (fcw s') = length (fcw s)"
proof -
  let ?n = "sint fr * 2 ^ 32 div sint (samplerate s)"
  have nz: "samplerate s \<noteq> 0" using assms(2) by auto
  have lt: "?n < 2 ^ 32" using quotient_less [OF assms(2,5)] .
  have ge: "0 \<le> ?n" using assms(2,4) by (simp add: pos_imp_zdiv_nonneg_iff)
  have c: "nat c < length (fcw s)" using assms(1) by (simp add: valid_index_def)
  have "real_of_int (sint fr) * 2 ^ 32 / real_of_int (sint (samplerate s))
          = of_int (sint fr * 2 ^ 32) / of_int (sint (samplerate s))"
    by simp
  then have fl: "\<lfloor>real_of_int (sint fr) * 2 ^ 32 / real_of_int (sint (samplerate s))\<rfloor> = ?n"
    by (simp only: floor_divide_of_int_eq)
  show ?thesis
    unfolding fl setFrequency_eq [OF assms(1) nz] control_word_in_range [OF assms(2,3,4) lt]
    using c uint_word_of_int_32 [OF ge lt] by simp
qed

theorem controlWord_truncates_witness:
  "valid_index 0 (fcw ((program_start 1)\<lparr>samplerate := 2400000\<rparr>))
   \<and> 0 < sint (samplerate ((program_start 1)\<lparr>samplerate := 2400000\<rparr>))
   \<and> sint (samplerate ((program_start 1)\<lparr>samplerate := 2400000\<rparr>)) < 2 ^ 22
   \<and> 0 \<le> sint (558794 :: cint)
   \<and> sint (558794 :: cint) < sint (samplerate ((program_start 1)\<lparr>samplerate := 2400000\<rparr>))
   \<and> (\<exists>s'. downmixer_setFrequency 739525000 558794 0
               ((program_start 1)\<lparr>samplerate := 2400000\<rparr>) = Inr s'
          \<and> uint (fcw s' ! 0) = 1000000814)"
proof -
  let ?s = "(program_start 1)\<lparr>samplerate := 2400000\<rparr>"
  have h: "valid_index 0 (fcw ?s)" "0 < sint (samplerate ?s)" "sint (samplerate ?s) < 2 ^ 22"
    "0 \<le> sint (558794 :: cint)" "sint (558794 :: cint) < sint (samplerate ?s)"
    by (simp_all add: valid_index_def program_start_def)
  have "\<lfloor>real_of_int (sint (558794 :: cint)) * 2 ^ 32 / real_of_int (sint (samplerate ?s))\<rfloor>
          = 1000000814"
    by simp
  with controlWord_truncates [OF h, of 739525000] obtain s' where
    "downmixer_setFrequency 739525000 558794 0 ?s = Inr s'"
    "uint (fcw s' ! nat 0) = 1000000814"
    by auto
  then have "\<exists>s'. downmixer_setFrequency 739525000 558794 0 ?s = Inr s'
          \<and> uint (fcw s' ! 0) = 1000000814"
    by simp
  with h show ?thesis by blast
qed

text \<open>
  Rounding to nearest, as the specification has it, gives 1790 for an offset of 1 Hz at
  2.4 MHz; the program stores 1789.
\<close>

theorem controlWord_counterexample:
  "map_sum id (\<lambda>s. uint (fcw s ! 0)) (start_and_tune 2400000 739525000 20 1 0) = Inr 1789
   \<and> spec_controlWord 1 2400000 = 1790"
proof -
  have h: "0 < sint (2400000 :: cint)" "sint (2400000 :: cint) < 2 ^ 22" "(0 :: nat) < 20"
    "0 \<le> sint (1 :: cint)"
    "sint (1 :: cint) * 2 ^ 32 div sint (2400000 :: cint) < 2 ^ 32"
    by simp_all
  from tuned_run [OF h, of 739525000] obtain s where
    s: "start_and_tune 2400000 739525000 20 1 0 = Inr s"
      "fcw s ! 0 = word_of_int (sint (1 :: cint) * 2 ^ 32 div sint (2400000 :: cint))"
    by blast
  have "fcw s ! 0 = 1789" unfolding s(2) by simp
  moreover have "spec_controlWord 1 2400000 = 1790"
    by (simp add: spec_controlWord_def round_def)
  ultimately show ?thesis by (simp add: s(1))
qed

text \<open>
  Claim C7. For a valid client and a sample rate other than 0, \<open>downmixer_setFrequency\<close>
  returns for every 32-bit offset, negative ones and ones beyond the Nyquist range
  included: the control word of the client is the truncated quotient reduced modulo
  \<open>2 ^ 32\<close>, the CAT variables are set, and nothing else changes.
\<close>

theorem setFrequency_total:
  assumes "valid_index c (fcw s)" and "samplerate s \<noteq> 0"
  shows "\<exists>s'. downmixer_setFrequency t fr c s = Inr s'
          \<and> uint (fcw s' ! nat c) =
              trunc_double (double_div (real_of_int (sint fr) * p232)
                                       (real_of_int (sint (samplerate s)))) mod 2 ^ 32
          \<and> length (fcw s') = length (fcw s)
          \<and> (\<forall>k. k \<noteq> nat c \<longrightarrow> fcw s' ! k = fcw s ! k)
          \<and> accu s' = accu s \<and> sht s' = sht s \<and> sinetable s' = sinetable s
          \<and> samplerate s' = samplerate s
          \<and> trx_frequency s' = fr + t \<and> ser_command s' = 2"
proof -
  have c: "nat c < length (fcw s)" using assms(1) by (simp add: valid_index_def)
  show ?thesis
    unfolding setFrequency_eq [OF assms]
    using c by (simp add: uint32_of_double_def uint_word_of_int take_bit_eq_mod)
qed

theorem setFrequency_total_witness:
  "valid_index 0 (fcw ((program_start 1)\<lparr>samplerate := 2400000\<rparr>))
   \<and> samplerate ((program_start 1)\<lparr>samplerate := 2400000\<rparr>) \<noteq> 0
   \<and> (\<exists>s'. downmixer_setFrequency 739525000 (- 600000) 0
               ((program_start 1)\<lparr>samplerate := 2400000\<rparr>) = Inr s'
          \<and> uint (fcw s' ! 0) = 3221225472)"
proof -
  let ?s = "(program_start 1)\<lparr>samplerate := 2400000\<rparr>"
  have h: "valid_index 0 (fcw ?s)" "samplerate ?s \<noteq> 0"
    by (simp_all add: valid_index_def program_start_def)
  have "trunc_double (double_div (real_of_int (sint (- 600000 :: cint)) * p232)
          (real_of_int (sint (samplerate ?s)))) = - 1073741824"
    by (simp add: double_div_def p232_def round_double_minus_2_30 trunc_double_def)
  with setFrequency_total [OF h, of 739525000 "- 600000"] obtain s' where
    "downmixer_setFrequency 739525000 (- 600000) 0 ?s = Inr s'"
    "uint (fcw s' ! nat 0) = - 1073741824 mod 2 ^ 32"
    by auto
  then have "\<exists>s'. downmixer_setFrequency 739525000 (- 600000) 0 ?s = Inr s'
          \<and> uint (fcw s' ! 0) = 3221225472"
    by simp
  with h show ?thesis by blast
qed

end
